theory Spec2Isabelle
  imports Main "HOL-Library.Word" "HOL-Library.Multiset"
begin

unbundle bit_operations_syntax

section \<open>Data model of the bridge\<close>

type_synonym u8 = "8 word"
type_synonym u16 = "16 word"
type_synonym u64 = "64 word"

text \<open>A hardware address is Go's \<open>[6]byte\<close>: a fixed array of six bytes.\<close>

type_synonym mac6 = "u8 \<times> u8 \<times> u8 \<times> u8 \<times> u8 \<times> u8"

text \<open>\<open>m[:]\<close>, the array read as a slice.\<close>

fun mac_slice :: "mac6 \<Rightarrow> u8 list" where
  "mac_slice (a, b, c, d, e, f) = [a, b, c, d, e, f]"

text \<open>
  \<open>copy(msg.Mac[:], src)\<close> into the zero array of a fresh Message: the first
  \<open>min 6 (len src)\<close> bytes are taken from \<open>src\<close>, the others stay zero.
\<close>

definition byte_at :: "u8 list \<Rightarrow> nat \<Rightarrow> u8" where
  "byte_at src i = (if i < length src then src ! i else 0)"

definition copy_mac :: "u8 list \<Rightarrow> mac6" where
  "copy_mac src =
     (byte_at src 0, byte_at src 1, byte_at src 2, byte_at src 3, byte_at src 4, byte_at src 5)"

record Message =
  Mac :: mac6
  Data :: "u8 list"

record peer =
  mac :: mac6
  wifiChannel :: u8

section \<open>CRC-16/XMODEM\<close>

text \<open>
  Modelled from the spec: the checksum is computed by the external library
  \<open>github.com/snksoft/crc\<close> with its \<open>XMODEM\<close> parameters, which is not part of the
  sources. The spec names it CRC-16/XMODEM: width 16, polynomial \<open>0x1021\<close>, initial
  value 0, no reflection, no final xor. \<open>CalculateCRC\<close> returns a \<open>uint64\<close>.
\<close>

definition crc_shift :: "u16 \<Rightarrow> u16" where
  "crc_shift c = (if bit c 15 then push_bit 1 c XOR 0x1021 else push_bit 1 c)"

definition crc_update :: "u16 \<Rightarrow> u8 \<Rightarrow> u16" where
  "crc_update c b =
     crc_shift (crc_shift (crc_shift (crc_shift (crc_shift (crc_shift (crc_shift (crc_shift
       (c XOR push_bit 8 (ucast b)))))))))"

definition CalculateCRC :: "u8 list \<Rightarrow> u64" where
  "CalculateCRC data = ucast (foldl crc_update 0 data)"

section \<open>The byte queue read by the Frame Reassembler\<close>

text \<open>
  The Reassembler reads the channel \<open>input\<close>. What it can observe there is a byte,
  or (only in the handshake loop, whose \<open>select\<close> has a timer) that no byte came for
  two seconds. The end of the list is the closed channel: every later receive
  reports \<open>!running\<close>.
\<close>

datatype inp = Byte u8 | Quiet

text \<open>
  One receive \<open>b, more := <-input\<close>: blocks through quiet periods. On a closed
  channel it yields the zero byte and \<open>False\<close>.
\<close>

fun recv :: "inp list \<Rightarrow> u8 \<times> bool \<times> inp list" where
  "recv [] = (0, False, [])"
| "recv (Quiet # input) = recv input"
| "recv (Byte b # input) = (b, True, input)"

text \<open>\<open>getBytes(input, len)\<close>: \<open>len\<close> receives; \<open>(nil, false)\<close> when the channel closes.\<close>

fun getBytes :: "inp list \<Rightarrow> nat \<Rightarrow> u8 list \<times> bool \<times> inp list" where
  "getBytes input 0 = ([], True, input)"
| "getBytes input (Suc n) =
     (case recv input of
        (b, False, input1) \<Rightarrow> ([], False, input1)
      | (b, True, input1) \<Rightarrow>
          (case getBytes input1 n of
             (bs, False, input2) \<Rightarrow> ([], False, input2)
           | (bs, True, input2) \<Rightarrow> (b # bs, True, input2)))"

section \<open>Frame Reassembler\<close>

text \<open>
  What the Reassembler does to the outside, in order: a send on \<open>reset\<close>, a send on
  \<open>sendPeers\<close>, a Message sent on \<open>output\<close> (the Inbox), a write to \<open>*active\<close>,
  and the deferred \<open>close(output)\<close> when it returns.
\<close>

datatype event = Reset | SendPeers | Output Message | SetActive bool | CloseOutput

definition activationHeader :: "u8 list" where
  "activationHeader = [0x11, 0x22, 0x33, 0x44, 0x55, 0x66, 0x77]"

text \<open>
  The handshake loop \<open>for detected < len(activationHeader)\<close>. The result is the resets
  sent on timer expiry and the input left after the marker, or \<open>None\<close> when the
  channel closed (the function returns).
\<close>

fun awaitActivation :: "nat \<Rightarrow> inp list \<Rightarrow> event list \<times> inp list option" where
  "awaitActivation detected input =
     (if detected < length activationHeader then
        (case input of
           [] \<Rightarrow> ([], None)
         | Byte b # input1 \<Rightarrow>
             awaitActivation (if b = activationHeader ! detected then detected + 1 else 0) input1
         | Quiet # input1 \<Rightarrow>
             (case awaitActivation detected input1 of (evs, r) \<Rightarrow> (Reset # evs, r)))
      else ([], Some input))"

declare awaitActivation.simps [simp del]


lemma recv_length: "recv input = (b, ok, r) \<Longrightarrow> length r \<le> length input"
  by (induction input rule: recv.induct) auto

lemma recv_length_ok: "recv input = (b, True, r) \<Longrightarrow> length r < length input"
  by (induction input rule: recv.induct) auto

lemma getBytes_length: "getBytes input n = (bs, ok, r) \<Longrightarrow> length r \<le> length input"
proof (induction n arbitrary: input bs ok r)
  case 0
  then show ?case by simp
next
  case (Suc n)
  obtain b ok1 r1 where r1: "recv input = (b, ok1, r1)"
    by (cases "recv input") auto
  obtain bs2 ok2 r2 where r2: "getBytes r1 n = (bs2, ok2, r2)"
    by (cases "getBytes r1 n") auto
  from recv_length [OF r1] Suc.IH [OF r2] Suc.prems r1 r2 show ?case
    by (cases ok1; cases ok2) auto
qed

lemma getBytes_length_ok:
  "getBytes input (Suc n) = (bs, True, r) \<Longrightarrow> length r < length input"
proof -
  assume a: "getBytes input (Suc n) = (bs, True, r)"
  obtain b ok1 r1 where r1: "recv input = (b, ok1, r1)"
    by (cases "recv input") auto
  obtain bs2 ok2 r2 where r2: "getBytes r1 n = (bs2, ok2, r2)"
    by (cases "getBytes r1 n") auto
  from a r1 r2 have "ok1" "ok2" "r = r2"
    by (cases ok1; cases ok2; auto)+
  with recv_length_ok [of input b r1] getBytes_length [OF r2] r1 show ?thesis
    by auto
qed

lemma awaitActivation_length:
  "awaitActivation detected input = (evs, Some r) \<Longrightarrow> length r \<le> length input"
proof (induction detected input arbitrary: evs rule: awaitActivation.induct)
  case (1 detected input)
  show ?case
  proof (cases "detected < length activationHeader")
    case False
    with "1.prems" show ?thesis by (simp add: awaitActivation.simps)
  next
    case True
    show ?thesis
    proof (cases input)
      case Nil
      with True "1.prems" show ?thesis by (simp add: awaitActivation.simps)
    next
      case (Cons x input1)
      show ?thesis
      proof (cases x)
        case (Byte b)
        with True Cons "1.prems"
        have "awaitActivation (if b = activationHeader ! detected then detected + 1 else 0) input1
                = (evs, Some r)"
          by (simp add: awaitActivation.simps [of detected])
        from "1.IH"(1) [OF True Cons Byte this] Cons show ?thesis by simp
      next
        case Quiet
        obtain evs1 r1 where e: "awaitActivation detected input1 = (evs1, r1)"
          by (cases "awaitActivation detected input1") auto
        with True Cons Quiet "1.prems" have "r1 = Some r"
          by (simp add: awaitActivation.simps [of detected])
        with "1.IH"(2) [OF True Cons Quiet] e Cons show ?thesis by simp
      qed
    qed
  qed
qed

lemma getBytes_le:
  "(bs, y) = getBytes input n \<Longrightarrow> (ok, r) = y \<Longrightarrow> length r \<le> length input"
  using getBytes_length [of input n bs ok r] by simp

lemma getBytes2_lt:
  "(bs, y) = getBytes input 2 \<Longrightarrow> (ok, r) = y \<Longrightarrow> ok = True \<Longrightarrow> length r < length input"
  using getBytes_length_ok [of input 1 bs r] by (simp add: numeral_2_eq_2)

lemma recv_le: "(b, y) = recv input \<Longrightarrow> (ok, r) = y \<Longrightarrow> length r \<le> length input"
  using recv_length [of input b ok r] by simp

text \<open>
  The main loop of \<open>reassembleMessages\<close>, started with the value of \<open>*active\<close>. Each
  iteration first runs the handshake when not active, then reads a two-byte header
  and dispatches on it. The results of reading the address and the checksum are
  not tested in the source; only the receive of the size byte is.
\<close>

function reassembleMessages :: "bool \<Rightarrow> inp list \<Rightarrow> event list" where
  "reassembleMessages False input =
     Reset #
     (case awaitActivation 0 input of
        (evs, None) \<Rightarrow> evs @ [CloseOutput]
      | (evs, Some input1) \<Rightarrow> evs @ SetActive True # reassembleMessages True input1)"
| "reassembleMessages True input =
     (case getBytes input 2 of
        (header, False, input1) \<Rightarrow> [CloseOutput]
      | (header, True, input1) \<Rightarrow>
          if header ! 0 = 0x55 \<and> header ! 1 = 0x44 then
            (case getBytes input1 6 of (macb, running1, input2) \<Rightarrow>
             case getBytes input2 2 of (crc, running2, input3) \<Rightarrow>
             case recv input3 of
               (sz, False, input4) \<Rightarrow> [CloseOutput]
             | (sz, True, input4) \<Rightarrow>
                 (case getBytes input4 (unat sz) of
                    (data, False, input5) \<Rightarrow> [CloseOutput]
                  | (data, True, input5) \<Rightarrow>
                      if (ucast (crc ! 0) OR push_bit 8 (ucast (crc ! 1)) :: u16)
                           \<noteq> ucast (CalculateCRC data)
                      then SetActive False # reassembleMessages False input5
                      else Output \<lparr>Mac = copy_mac macb, Data = data\<rparr>
                             # reassembleMessages True input5))
          else if header ! 0 = 0x44 \<and> header ! 1 = 0x33 then
            SendPeers # reassembleMessages True input1
          else SetActive False # reassembleMessages False input1)"
  by pat_completeness auto

termination
proof (relation "measure (\<lambda>(a, input). 2 * length input + (if a then 0 else 1))", goal_cases)
  case 1
  show ?case by simp
next
  case (2 input evs r input1)
  then show ?case
    using awaitActivation_length [of 0 input evs input1] by simp
next
  case p: 3
  from getBytes2_lt [OF p(1,2,3)] getBytes_le [OF p(5,6)] getBytes_le [OF p(7,8)]
    recv_le [OF p(9,10)] getBytes_le [OF p(12,13)]
  show ?case by simp
next
  case p: 4
  from getBytes2_lt [OF p(1,2,3)] getBytes_le [OF p(5,6)] getBytes_le [OF p(7,8)]
    recv_le [OF p(9,10)] getBytes_le [OF p(12,13)]
  show ?case by simp
next
  case p: 5
  from getBytes2_lt [OF p(1,2,3)] show ?case by simp
next
  case p: 6
  from getBytes2_lt [OF p(1,2,3)] show ?case by simp
qed

declare reassembleMessages.simps [simp del]

section \<open>Bridge and peer table\<close>

text \<open>
  The connection is an \<open>io.ReadWriteCloser\<close> opened outside the bridge. The model
  keeps the bytes written so far and whether the link is up: following the
  \<open>io.Writer\<close> contract, \<open>Write\<close> on a link that is up takes the whole slice, and on a
  link that is down it returns an error and takes nothing. The result is the pair
  \<open>(written, failed)\<close> and the connection afterwards.
\<close>

record connection =
  written :: "u8 list"
  link_up :: bool

definition Write :: "connection \<Rightarrow> u8 list \<Rightarrow> (nat \<times> bool) \<times> connection" where
  "Write c p =
     (if link_up c then ((length p, False), c\<lparr>written := written c @ p\<rparr>) else ((0, True), c))"

record Bridge =
  connection :: connection
  active :: bool
  peers :: "peer list"

datatype bridge_error = PeerTableFull

text \<open>
  \<open>AddPeer\<close>: the guard is \<open>len(b.peers) >= 20\<close>, the new peer is built, and the
  table is assigned \<open>append(b.peers)\<close>, an append of no element.
\<close>

definition AddPeer :: "Bridge \<Rightarrow> mac6 \<Rightarrow> u8 \<Rightarrow> bridge_error + Bridge" where
  "AddPeer b m ch =
     (if length (peers b) \<ge> 20 then Inl PeerTableFull
      else
        (let newPeer = \<lparr>mac = copy_mac (mac_slice m), wifiChannel = ch\<rparr>
         in Inr (b\<lparr>peers := peers b @ []\<rparr>)))"

text \<open>The search loop of \<open>RemovePeer\<close>, from index \<open>i\<close>; \<open>-1\<close> when no entry matches.\<close>

function findPeer :: "peer list \<Rightarrow> mac6 \<Rightarrow> nat \<Rightarrow> int" where
  "findPeer ps m i =
     (if i < length ps then
        (if mac_slice (mac (ps ! i)) = mac_slice m then int i else findPeer ps m (i + 1))
      else - 1)"
  by pat_completeness auto
termination
  by (relation "measure (\<lambda>(ps, m, i). length ps - i)") auto

declare findPeer.simps [simp del]

definition RemovePeer :: "Bridge \<Rightarrow> mac6 \<Rightarrow> Bridge" where
  "RemovePeer b m =
     (let peerIndex = findPeer (peers b) m 0 in
      if peerIndex \<noteq> - 1 then
        b\<lparr>peers := take (length (peers b) - 1)
                      ((peers b)[nat peerIndex := peers b ! (length (peers b) - 1)])\<rparr>
      else b)"

text \<open>
  \<open>WaitForConnected\<close>. Time is in nanoseconds. \<open>t0\<close> is the clock read for \<open>end\<close>,
  \<open>now\<close> the clock at the loop test; the only thing that moves the clock in the loop
  is the sleep of 10 ms. The receiver is a copy of the Bridge, so the flag tested is
  the one the Bridge had at the call. The result is the time at which the call
  returns; \<open>None\<close> is a call that never returns.
\<close>

partial_function (option) waitLoop :: "int \<Rightarrow> bool \<Rightarrow> int \<Rightarrow> int option" where
  "waitLoop end_time act now =
     (if end_time < now then
        (if act then Some now else waitLoop end_time act (now + 10000000))
      else Some now)"

declare waitLoop.simps [code]

definition WaitForConnected :: "Bridge \<Rightarrow> int \<Rightarrow> int \<Rightarrow> int \<Rightarrow> int option" where
  "WaitForConnected b t0 now maxWait = waitLoop (t0 + maxWait) (active b) now"

section \<open>Link Writer\<close>

text \<open>\<open>log.Fatal\<close> ends the process; the connection is as it was at that moment.\<close>

datatype fatal = PayloadTooLarge | WriteFailed

function assureWrittenFrom ::
  "connection \<Rightarrow> u8 list \<Rightarrow> nat \<Rightarrow> (fatal \<times> connection) + connection" where
  "assureWrittenFrom target data index =
     (if index < length data then
        (case Write target (drop index data) of
           ((n, failed), target1) \<Rightarrow>
             if failed then Inl (WriteFailed, target1)
             else assureWrittenFrom target1 data (index + n))
      else Inr target)"
  by pat_completeness auto
termination
  by (relation "measure (\<lambda>(target, data, index). length data - index)")
     (auto simp: Write_def split: if_splits)

declare assureWrittenFrom.simps [simp del]

definition assureWritten :: "connection \<Rightarrow> u8 list \<Rightarrow> (fatal \<times> connection) + connection" where
  "assureWritten target data = assureWrittenFrom target data 0"

text \<open>The next \<open>assureWritten\<close> of a sequence runs only if the process is still alive.\<close>

definition then_write ::
  "(fatal \<times> connection) + connection \<Rightarrow> u8 list \<Rightarrow> (fatal \<times> connection) + connection" where
  "then_write r data = (case r of Inl e \<Rightarrow> Inl e | Inr c \<Rightarrow> assureWritten c data)"

definition sendMessage :: "u8 list" where
  "sendMessage = [0x22, 0x11]"

definition resetMessage :: "u8 list" where
  "resetMessage = [0x42, 0x42, 0x42, 0x42]"

definition addPeer :: "u8 list" where
  "addPeer = [0x33, 0x22]"

text \<open>The body of \<open>case msg := <-box\<close>.\<close>

definition sendOutbound :: "connection \<Rightarrow> Message \<Rightarrow> (fatal \<times> connection) + connection" where
  "sendOutbound c msg =
     (if length (Data msg) > 250 then Inl (PayloadTooLarge, c)
      else
        (let crc = CalculateCRC (Data msg) in
         then_write (then_write (then_write (then_write
           (assureWritten c sendMessage)
           (mac_slice (Mac msg)))
           [ucast (crc AND 0xFF), ucast (drop_bit 8 crc AND 0xFF)])
           [of_nat (length (Data msg))])
           (Data msg)))"

text \<open>The body of \<open>case <-sendPeers\<close>: \<open>for _, p := range b.peers\<close>.\<close>

fun pushPeers :: "connection \<Rightarrow> peer list \<Rightarrow> (fatal \<times> connection) + connection" where
  "pushPeers c [] = Inr c"
| "pushPeers c (p # ps) =
     (case then_write (then_write (assureWritten c addPeer) (mac_slice (mac p))) [wifiChannel p] of
        Inl e \<Rightarrow> Inl e
      | Inr c1 \<Rightarrow> pushPeers c1 ps)"

text \<open>
  The loop of \<open>writeBytes\<close>. The state is the Bridge and the Messages waiting in
  the Outbox, oldest first. An iteration reads \<open>b.active\<close> once, at its top, and then
  blocks in one of two \<open>select\<close> statements until a case fires; \<open>ready\<close> says which
  case. A case that the \<open>select\<close> does not have, or a receive from an empty Outbox,
  is \<open>NotReady\<close>: it cannot fire. The Outbox is open (\<open>Close\<close> is not part of the
  model).
\<close>

datatype ready = FromBox | FromReset | FromSendPeers | TimerFired

datatype outcome = NotReady | Exited fatal connection | Continue Bridge "Message list"

definition continue_with ::
  "Bridge \<Rightarrow> Message list \<Rightarrow> (fatal \<times> connection) + connection \<Rightarrow> outcome" where
  "continue_with b box r =
     (case r of Inl (f, c) \<Rightarrow> Exited f c | Inr c \<Rightarrow> Continue (b\<lparr>connection := c\<rparr>) box)"

text \<open>
  The \<open>select\<close> of the branch \<open>if !b.active\<close>: its cases are the reset channel and
  the timer of 100 ms; both end in \<open>continue\<close>.
\<close>

definition select_not_active :: "ready \<Rightarrow> Bridge \<Rightarrow> Message list \<Rightarrow> outcome" where
  "select_not_active ev b box =
     (case ev of
        FromReset \<Rightarrow> continue_with b box (assureWritten (connection b) resetMessage)
      | TimerFired \<Rightarrow> Continue b box
      | _ \<Rightarrow> NotReady)"

text \<open>
  The \<open>select\<close> reached when \<open>b.active\<close> was read as true: its cases are the Outbox,
  the reset channel and the peer-push channel. It has no timer and does not read
  the flag again.
\<close>

definition select_active :: "ready \<Rightarrow> Bridge \<Rightarrow> Message list \<Rightarrow> outcome" where
  "select_active ev b box =
     (case ev of
        FromBox \<Rightarrow>
          (case box of
             [] \<Rightarrow> NotReady
           | msg # box1 \<Rightarrow> continue_with b box1 (sendOutbound (connection b) msg))
      | FromReset \<Rightarrow> continue_with b box (assureWritten (connection b) resetMessage)
      | FromSendPeers \<Rightarrow> continue_with b box (pushPeers (connection b) (peers b))
      | TimerFired \<Rightarrow> NotReady)"

text \<open>
  Where the writer is: at the top of the loop, before the test of \<open>b.active\<close>, or
  blocked in one of the two \<open>select\<close> statements. The test sends it to one of them
  by the value the flag has at that moment.
\<close>

datatype position = AtTop | InSelectNotActive | InSelectActive

definition read_active :: "Bridge \<Rightarrow> position" where
  "read_active b = (if \<not> active b then InSelectNotActive else InSelectActive)"

text \<open>
  The application's side of the Outbox, \<open>b.Outbox <- msg\<close>. \<open>setupBridge\<close> makes
  the channel with \<open>make(chan Message, 64)\<close>: a send puts the Message behind the ones
  waiting, and on a channel that holds 64 it blocks (\<open>None\<close>).
\<close>

definition Outbox_send :: "Message list \<Rightarrow> Message \<Rightarrow> Message list option" where
  "Outbox_send box msg = (if length box < 64 then Some (box @ [msg]) else None)"

text \<open>
  The Link Writer among the other goroutines. An action is one of: the writer
  tests \<open>b.active\<close> (\<open>ReadFlag\<close>); a case of the \<open>select\<close> in which the writer is
  blocked fires (\<open>Fire\<close>), after which the writer is at the top again; the
  Reassembler writes \<open>*active\<close> (\<open>Flag\<close>); the application sends a Message on the
  Outbox (\<open>Send\<close>). The flag can change while the writer is blocked. A sequence with
  an action that cannot happen where it stands is \<open>Impossible\<close>; \<open>Died\<close> is the end
  of the process by \<open>log.Fatal\<close>. \<open>sent\<close> lists the Messages of the sends.
\<close>

datatype action = ReadFlag | Fire ready | Flag bool | Send Message

datatype run = Impossible | Died fatal connection | Running position Bridge "Message list"

fun pipeline :: "action list \<Rightarrow> position \<Rightarrow> Bridge \<Rightarrow> Message list \<Rightarrow> run" where
  "pipeline [] pos b box = Running pos b box"
| "pipeline (ReadFlag # acts) pos b box =
     (case pos of
        AtTop \<Rightarrow> pipeline acts (read_active b) b box
      | _ \<Rightarrow> Impossible)"
| "pipeline (Fire ev # acts) pos b box =
     (case pos of
        AtTop \<Rightarrow> Impossible
      | InSelectNotActive \<Rightarrow>
          (case select_not_active ev b box of
             NotReady \<Rightarrow> Impossible
           | Exited f c \<Rightarrow> Died f c
           | Continue b1 box1 \<Rightarrow> pipeline acts AtTop b1 box1)
      | InSelectActive \<Rightarrow>
          (case select_active ev b box of
             NotReady \<Rightarrow> Impossible
           | Exited f c \<Rightarrow> Died f c
           | Continue b1 box1 \<Rightarrow> pipeline acts AtTop b1 box1))"
| "pipeline (Flag v # acts) pos b box = pipeline acts pos (b\<lparr>active := v\<rparr>) box"
| "pipeline (Send msg # acts) pos b box =
     (case Outbox_send box msg of
        None \<Rightarrow> Impossible
      | Some box1 \<Rightarrow> pipeline acts pos b box1)"



text \<open>
  The outbound frame in the words of the spec: header \<open>22 11\<close>, address, checksum
  low byte then high byte, length, payload.
\<close>

definition outbound_frame :: "Message \<Rightarrow> u8 list" where
  "outbound_frame msg =
     [0x22, 0x11] @ mac_slice (Mac msg)
       @ [ucast (CalculateCRC (Data msg)), ucast (drop_bit 8 (CalculateCRC (Data msg)))]
       @ [of_nat (length (Data msg))] @ Data msg"

section \<open>Values of the spec's concrete scenario\<close>

definition example_mac :: mac6 where
  "example_mac = (0xAA, 0xBB, 0xCC, 0xDD, 0xEE, 0xFF)"

definition example_msg :: Message where
  "example_msg = \<lparr>Mac = example_mac, Data = [0x68, 0x69]\<rparr>"

definition example_bridge :: Bridge where
  "example_bridge = \<lparr>connection = \<lparr>written = [], link_up = True\<rparr>, active = False, peers = []\<rparr>"

section \<open>Reading one inbound frame\<close>

lemma getBytes_map: "length bs = n \<Longrightarrow> getBytes (map Byte bs @ r) n = (bs, True, r)"
  by (induction bs arbitrary: n) auto

lemma getBytes_closed: "getBytes [] 2 = ([], False, [])"
  by (simp add: numeral_2_eq_2)

lemma copy_mac_slice: "copy_mac (mac_slice m) = m"
  by (cases m) (simp add: copy_mac_def byte_at_def)

lemma length_mac_slice: "length (mac_slice m) = 6"
  by (cases m) simp


lemma awaitActivation_closed: "awaitActivation 0 [] = ([], None)"
  by (simp add: awaitActivation.simps activationHeader_def)

lemma unat_len: "n \<le> 255 \<Longrightarrow> unat (of_nat n :: u8) = n"
  by (simp add: unat_of_nat)

lemma reassemble_closed: "reassembleMessages True [] = [CloseOutput]"
  by (simp add: reassembleMessages.simps(2) getBytes_closed)

lemma read_frame:
  assumes n: "length payload \<le> 255"
  shows "reassembleMessages True
           (map Byte ([0x55, 0x44] @ mac_slice m @ [lo, hi] @ [of_nat (length payload)] @ payload)
              @ rest)
         = (if (ucast lo OR push_bit 8 (ucast hi) :: u16) \<noteq> ucast (CalculateCRC payload)
            then SetActive False # reassembleMessages False rest
            else Output \<lparr>Mac = m, Data = payload\<rparr> # reassembleMessages True rest)"
proof -
  let ?sz = "of_nat (length payload) :: u8"
  let ?in4 = "map Byte payload @ rest"
  let ?in3 = "Byte ?sz # ?in4"
  let ?in2 = "map Byte [lo, hi] @ ?in3"
  let ?in1 = "map Byte (mac_slice m) @ ?in2"
  let ?in0 = "map Byte [0x55, 0x44] @ ?in1"
  have h0: "getBytes ?in0 2 = ([0x55, 0x44], True, ?in1)"
    by (rule getBytes_map) simp
  have h1: "getBytes ?in1 6 = (mac_slice m, True, ?in2)"
    by (rule getBytes_map) (simp add: length_mac_slice)
  have h2: "getBytes ?in2 2 = ([lo, hi], True, ?in3)"
    by (rule getBytes_map) simp
  have h3: "recv ?in3 = (?sz, True, ?in4)"
    by simp
  have h4: "getBytes ?in4 (unat ?sz) = (payload, True, rest)"
    by (rule getBytes_map) (simp add: unat_len n)
  have eq: "map Byte ([0x55, 0x44] @ mac_slice m @ [lo, hi] @ [?sz] @ payload) @ rest = ?in0"
    by simp
  show ?thesis
    unfolding eq
    by (subst reassembleMessages.simps(2))
       (simp add: h0 h1 h2 h3 h4 copy_mac_slice del: map_append list.map)
qed

text \<open>The two checksum bytes, low then high, joined again give the low 16 bits.\<close>

lemma mask8_u64: "(0xFF :: u64) = mask 8"
  by (simp add: mask_eq_exp_minus_1)

lemma crc_bytes_join:
  "(ucast (ucast c :: u8) OR push_bit 8 (ucast (ucast (drop_bit 8 c) :: u8)) :: u16)
     = ucast (c :: u64)"
proof (rule bit_word_eqI)
  fix n :: nat
  assume "n < LENGTH(16)"
  then have n: "n < 16" by simp
  show "bit (ucast (ucast c :: u8) OR push_bit 8 (ucast (ucast (drop_bit 8 c) :: u8)) :: u16) n
          = bit (ucast c :: u16) n"
    using n by (cases "n < 8") (auto simp add: bit_simps)
qed

lemma low_byte_mask: "(ucast ((c :: u64) AND 0xFF) :: u8) = ucast c"
  unfolding mask8_u64 by (rule bit_word_eqI) (auto simp add: bit_simps)

lemma crc_hi_low: "(ucast (CalculateCRC [0x68, 0x69]) :: u8) = 0x0C"
  by (simp add: CalculateCRC_def crc_update_def crc_shift_def)

lemma crc_hi_high: "(ucast (drop_bit 8 (CalculateCRC [0x68, 0x69])) :: u8) = 0x7F"
  by (simp add: CalculateCRC_def crc_update_def crc_shift_def)

lemma example_frame:
  "outbound_frame example_msg
     = [0x22, 0x11, 0xAA, 0xBB, 0xCC, 0xDD, 0xEE, 0xFF, 0x0C, 0x7F, 2, 0x68, 0x69]"
  by (simp add: outbound_frame_def example_msg_def example_mac_def crc_hi_low crc_hi_high)

lemma crc_zeros: "CalculateCRC (replicate n 0) = 0"
proof -
  have "foldl crc_update 0 (replicate n 0) = 0"
    by (induction n) (simp_all add: crc_update_def crc_shift_def)
  then show ?thesis
    by (simp add: CalculateCRC_def)
qed

section \<open>Link Writer: what one iteration writes\<close>

lemma assureWritten_eq:
  "assureWritten c data =
     (if data = [] then Inr c
      else if link_up c then Inr (c\<lparr>written := written c @ data\<rparr>)
      else Inl (WriteFailed, c))"
proof (cases "data = []")
  case True
  then show ?thesis
    unfolding assureWritten_def by (subst assureWrittenFrom.simps) simp
next
  case False
  have fin: "\<And>c1. assureWrittenFrom c1 data (length data) = Inr c1"
    by (subst assureWrittenFrom.simps) simp
  from False show ?thesis
    unfolding assureWritten_def
    by (subst assureWrittenFrom.simps) (simp add: Write_def fin)
qed

lemma assureWritten_up:
  "link_up c \<Longrightarrow> assureWritten c data = Inr (c\<lparr>written := written c @ data\<rparr>)"
  by (simp add: assureWritten_eq)

lemma then_write_up:
  "link_up c \<Longrightarrow> then_write (Inr c) data = Inr (c\<lparr>written := written c @ data\<rparr>)"
  by (simp add: then_write_def assureWritten_up)

lemma sendOutbound_large:
  "length (Data msg) > 250 \<Longrightarrow> sendOutbound c msg = Inl (PayloadTooLarge, c)"
  by (simp add: sendOutbound_def)

lemma sendOutbound_up:
  assumes "link_up c" "length (Data msg) \<le> 250"
  shows "sendOutbound c msg = Inr (c\<lparr>written := written c @ outbound_frame msg\<rparr>)"
  using assms
  by (simp add: sendOutbound_def Let_def assureWritten_up then_write_up outbound_frame_def
      sendMessage_def low_byte_mask)








section \<open>Peer table: search and swap-remove\<close>

lemma mac_slice_eq: "mac_slice a = mac_slice b \<longleftrightarrow> a = b"
  by (cases a; cases b) simp

lemma findPeer_first:
  "findPeer ps m i = - 1 \<and> (\<forall>j. i \<le> j \<and> j < length ps \<longrightarrow> mac (ps ! j) \<noteq> m)
   \<or> (\<exists>k. findPeer ps m i = int k \<and> i \<le> k \<and> k < length ps \<and> mac (ps ! k) = m
            \<and> (\<forall>j. i \<le> j \<and> j < k \<longrightarrow> mac (ps ! j) \<noteq> m))"
proof (induction ps m i rule: findPeer.induct)
  case (1 ps m i)
  show ?case
  proof (cases "i < length ps")
    case False
    then have "findPeer ps m i = - 1"
      by (subst findPeer.simps) simp
    with False show ?thesis
      by auto
  next
    case True
    show ?thesis
    proof (cases "mac (ps ! i) = m")
      case here: True
      have "findPeer ps m i = int i"
        using True here by (subst findPeer.simps) simp
      with True here show ?thesis
        by auto
    next
      case nothere: False
      have step: "findPeer ps m i = findPeer ps m (i + 1)"
        using True nothere by (subst findPeer.simps) (simp add: mac_slice_eq)
      have ih: "findPeer ps m (i + 1) = - 1 \<and> (\<forall>j. i + 1 \<le> j \<and> j < length ps \<longrightarrow> mac (ps ! j) \<noteq> m)
   \<or> (\<exists>k. findPeer ps m (i + 1) = int k \<and> i + 1 \<le> k \<and> k < length ps \<and> mac (ps ! k) = m
            \<and> (\<forall>j. i + 1 \<le> j \<and> j < k \<longrightarrow> mac (ps ! j) \<noteq> m))"
        using "1.IH" [OF True] nothere by (simp add: mac_slice_eq)
      have le: "\<And>j. i \<le> j \<Longrightarrow> j = i \<or> i + 1 \<le> j"
        by arith
      from ih show ?thesis
      proof
        assume a: "findPeer ps m (i + 1) = - 1 \<and> (\<forall>j. i + 1 \<le> j \<and> j < length ps \<longrightarrow> mac (ps ! j) \<noteq> m)"
        have "\<forall>j. i \<le> j \<and> j < length ps \<longrightarrow> mac (ps ! j) \<noteq> m"
          using a nothere le by blast
        with a step show ?thesis by simp
      next
        assume "\<exists>k. findPeer ps m (i + 1) = int k \<and> i + 1 \<le> k \<and> k < length ps \<and> mac (ps ! k) = m
            \<and> (\<forall>j. i + 1 \<le> j \<and> j < k \<longrightarrow> mac (ps ! j) \<noteq> m)"
        then obtain k where k: "findPeer ps m (i + 1) = int k" "i + 1 \<le> k" "k < length ps"
          "mac (ps ! k) = m" "\<forall>j. i + 1 \<le> j \<and> j < k \<longrightarrow> mac (ps ! j) \<noteq> m"
          by blast
        have "\<forall>j. i \<le> j \<and> j < k \<longrightarrow> mac (ps ! j) \<noteq> m"
          using k(5) nothere le by blast
        with k step show ?thesis
          by (intro disjI2 exI [of _ k]) simp
      qed
    qed
  qed
qed

lemma mset_swap_remove:
  assumes "k < length ps"
  shows "add_mset (ps ! k) (mset (take (length ps - 1) (ps[k := ps ! (length ps - 1)]))) = mset ps"
proof -
  from assms obtain xs x where ps: "ps = xs @ [x]"
    by (cases ps rule: rev_cases) auto
  show ?thesis
  proof (cases "k < length xs")
    case True
    then have "xs ! k \<in># mset xs"
      by simp
    with True show ?thesis
      by (simp add: ps nth_append list_update_append mset_update)
  next
    case False
    with assms ps have "k = length xs"
      by simp
    then show ?thesis
      by (simp add: ps)
  qed
qed

lemma RemovePeer_found:
  assumes "k < length (peers b)" "mac (peers b ! k) = m" "\<forall>j < k. mac (peers b ! j) \<noteq> m"
  shows "RemovePeer b m
           = b\<lparr>peers := take (length (peers b) - 1) ((peers b)[k := peers b ! (length (peers b) - 1)])\<rparr>"
proof -
  from findPeer_first [of "peers b" m 0] assms have "findPeer (peers b) m 0 = int k"
    by (metis linorder_neqE_nat of_nat_eq_iff zero_le)
  then show ?thesis
    by (simp add: RemovePeer_def)
qed

lemma RemovePeer_absent:
  assumes "\<forall>p \<in> set (peers b). mac p \<noteq> m"
  shows "RemovePeer b m = b"
proof -
  from findPeer_first [of "peers b" m 0] assms have "findPeer (peers b) m 0 = - 1"
    by (metis nth_mem)
  then show ?thesis
    by (simp add: RemovePeer_def)
qed

lemma first_match:
  assumes "\<exists>p \<in> set ps. mac p = m"
  shows "\<exists>k. k < length ps \<and> mac (ps ! k) = m \<and> (\<forall>j < k. mac (ps ! j) \<noteq> m)"
proof -
  from assms obtain i where i: "i < length ps" "mac (ps ! i) = m"
    by (metis in_set_conv_nth)
  define k where "k = (LEAST i. i < length ps \<and> mac (ps ! i) = m)"
  have "k < length ps \<and> mac (ps ! k) = m"
    unfolding k_def by (rule LeastI [of _ i]) (simp add: i)
  moreover have "\<forall>j < k. mac (ps ! j) \<noteq> m"
  proof (intro allI impI)
    fix j assume "j < k"
    then have "\<not> (j < length ps \<and> mac (ps ! j) = m)"
      unfolding k_def by (rule not_less_Least)
    with \<open>j < k\<close> \<open>k < length ps \<and> mac (ps ! k) = m\<close> show "mac (ps ! j) \<noteq> m"
      by simp
  qed
  ultimately show ?thesis by blast
qed

section \<open>Reassembler: events and payload length\<close>

lemma getBytes_result_length: "getBytes input n = (bs, True, r) \<Longrightarrow> length bs = n"
proof (induction n arbitrary: input bs r)
  case 0
  then show ?case by simp
next
  case (Suc n)
  then show ?case
    by (auto split: prod.splits bool.splits)
qed

lemma awaitActivation_events:
  "awaitActivation d input = (evs, r) \<Longrightarrow> e \<in> set evs \<Longrightarrow> e = Reset"
proof (induction d input arbitrary: evs r rule: awaitActivation.induct)
  case (1 detected input)
  show ?case
  proof (cases "detected < length activationHeader")
    case False
    with "1.prems" show ?thesis by (simp add: awaitActivation.simps)
  next
    case True
    show ?thesis
    proof (cases input)
      case Nil
      with True "1.prems" show ?thesis by (simp add: awaitActivation.simps)
    next
      case (Cons x input1)
      show ?thesis
      proof (cases x)
        case (Byte b)
        with True Cons "1.prems"(1)
        have "awaitActivation (if b = activationHeader ! detected then detected + 1 else 0) input1
                = (evs, r)"
          by (simp add: awaitActivation.simps [of detected])
        from "1.IH"(1) [OF True Cons Byte this "1.prems"(2)] show ?thesis .
      next
        case Quiet
        obtain evs1 r1 where e: "awaitActivation detected input1 = (evs1, r1)"
          by (cases "awaitActivation detected input1") auto
        with True Cons Quiet "1.prems"(1) have "evs = Reset # evs1"
          by (simp add: awaitActivation.simps [of detected])
        with "1.IH"(2) [OF True Cons Quiet e] "1.prems"(2) show ?thesis by auto
      qed
    qed
  qed
qed

lemma unat_u8_le: "unat (w :: u8) \<le> 255"
  using unsigned_less [of w, where 'a = nat] by simp

section \<open>Inbound frames\<close>




section \<open>Outbound frames against the inbound parser\<close>

text \<open>
  C2, as stated, at an explicit input. The Link Writer encodes the Message
  \<open>AA:BB:CC:DD:EE:FF\<close>, \<open>hi\<close>; the bytes it writes start with the outbound header
  \<open>22 11\<close>. A connected Reassembler given these bytes takes the header for an
  unknown one: it emits no Message, leaves the connected state and asks for a
  reset.
\<close>

theorem outbound_frame_not_inbound:
  "sendOutbound \<lparr>written = [], link_up = True\<rparr> example_msg
     = Inr \<lparr>written = [0x22, 0x11, 0xAA, 0xBB, 0xCC, 0xDD, 0xEE, 0xFF, 0x0C, 0x7F, 2, 0x68, 0x69],
            link_up = True\<rparr> \<and>
   reassembleMessages True
     (map Byte [0x22, 0x11, 0xAA, 0xBB, 0xCC, 0xDD, 0xEE, 0xFF, 0x0C, 0x7F, 2, 0x68, 0x69])
     = [SetActive False, Reset, CloseOutput]"
proof
  show "sendOutbound \<lparr>written = [], link_up = True\<rparr> example_msg
     = Inr \<lparr>written = [0x22, 0x11, 0xAA, 0xBB, 0xCC, 0xDD, 0xEE, 0xFF, 0x0C, 0x7F, 2, 0x68, 0x69],
            link_up = True\<rparr>"
  proof -
    have "length (Data example_msg) \<le> 250"
      by (simp add: example_msg_def)
    then show ?thesis
      by (simp add: sendOutbound_up example_frame)
  qed
  show "reassembleMessages True
     (map Byte [0x22, 0x11, 0xAA, 0xBB, 0xCC, 0xDD, 0xEE, 0xFF, 0x0C, 0x7F, 2, 0x68, 0x69])
     = [SetActive False, Reset, CloseOutput]"
  proof -
    let ?rest = "map Byte [0xAA, 0xBB, 0xCC, 0xDD, 0xEE, 0xFF, 0x0C, 0x7F, 2, 0x68, 0x69]"
    have g: "getBytes (map Byte [0x22, 0x11] @ ?rest) 2 = ([0x22, 0x11], True, ?rest)"
      by (rule getBytes_map) simp
    have s1: "reassembleMessages True (map Byte [0x22, 0x11] @ ?rest)
                = SetActive False # reassembleMessages False ?rest"
      by (subst reassembleMessages.simps(2)) (simp add: g del: list.map map_append)
    have aw: "awaitActivation 0 ?rest = ([], None)"
      by (simp add: awaitActivation.simps activationHeader_def)
    have s2: "reassembleMessages False ?rest = [Reset, CloseOutput]"
      by (subst reassembleMessages.simps(1)) (simp add: aw del: list.map)
    from s1 s2 show ?thesis
      by simp
  qed
qed

text \<open>
  C2, amended. For every payload of at most 250 bytes and every address, the bytes
  the Link Writer writes are the header \<open>22 11\<close> and a body; the same body after the
  inbound header \<open>55 44\<close> is decoded by a connected Reassembler into the same
  Message (same address, payload unchanged), so the checksum it recomputes is the
  one transmitted.
\<close>

theorem outbound_body_roundtrip:
  assumes "length (Data msg) \<le> 250"
  shows "\<exists>body. sendOutbound \<lparr>written = [], link_up = True\<rparr> msg
                  = Inr \<lparr>written = [0x22, 0x11] @ body, link_up = True\<rparr> \<and>
                reassembleMessages True (map Byte ([0x55, 0x44] @ body) @ rest)
                  = Output msg # reassembleMessages True rest"
proof -
  let ?c = "CalculateCRC (Data msg)"
  let ?body = "mac_slice (Mac msg) @ [ucast ?c, ucast (drop_bit 8 ?c)]
                 @ [of_nat (length (Data msg))] @ Data msg"
  have enc: "sendOutbound \<lparr>written = [], link_up = True\<rparr> msg
               = Inr \<lparr>written = [0x22, 0x11] @ ?body, link_up = True\<rparr>"
    using assms by (simp add: sendOutbound_up outbound_frame_def)
  have len: "length (Data msg) \<le> 255"
    using assms by simp
  have dec: "reassembleMessages True (map Byte ([0x55, 0x44] @ ?body) @ rest)
               = Output msg # reassembleMessages True rest"
    using read_frame [OF len, of "Mac msg" "ucast ?c" "ucast (drop_bit 8 ?c)" rest]
    by (simp add: crc_bytes_join)
  from enc dec show ?thesis
    by blast
qed

theorem outbound_body_roundtrip_witness:
  "sendOutbound \<lparr>written = [], link_up = True\<rparr> example_msg
     = Inr \<lparr>written = [0x22, 0x11, 0xAA, 0xBB, 0xCC, 0xDD, 0xEE, 0xFF, 0x0C, 0x7F, 2, 0x68, 0x69],
            link_up = True\<rparr> \<and>
   reassembleMessages True
     (map Byte [0x55, 0x44, 0xAA, 0xBB, 0xCC, 0xDD, 0xEE, 0xFF, 0x0C, 0x7F, 2, 0x68, 0x69])
     = [Output example_msg, CloseOutput]"
proof -
  have len: "length (Data example_msg) \<le> 250"
    by (simp add: example_msg_def)
  have enc: "sendOutbound \<lparr>written = [], link_up = True\<rparr> example_msg
     = Inr \<lparr>written = [0x22, 0x11, 0xAA, 0xBB, 0xCC, 0xDD, 0xEE, 0xFF, 0x0C, 0x7F, 2, 0x68, 0x69],
            link_up = True\<rparr>"
    using len by (simp add: sendOutbound_up example_frame)
  from outbound_body_roundtrip [OF len, of "[]"] enc show ?thesis
    by (auto simp add: reassemble_closed)
qed

section \<open>Checksum mismatch\<close>

text \<open>
  C3. A connected Reassembler reads a \<open>55 44\<close> frame whose two checksum bytes do not
  equal the CRC-16/XMODEM it computes over the payload: it emits no Message for the
  frame, sets the connected flag to false and then sends a reset request; what
  follows is what a Reassembler awaiting the handshake does with the bytes after
  the frame.
\<close>

theorem reassemble_crc_mismatch:
  assumes "length payload \<le> 255"
    and "(ucast lo OR push_bit 8 (ucast hi) :: u16) \<noteq> ucast (CalculateCRC payload)"
  shows "\<exists>evs. reassembleMessages False rest = Reset # evs \<and>
           reassembleMessages True
             (map Byte ([0x55, 0x44] @ mac_slice m @ [lo, hi] @ [of_nat (length payload)] @ payload)
                @ rest)
           = SetActive False # Reset # evs"
proof -
  obtain evs where evs: "reassembleMessages False rest = Reset # evs"
    by (simp add: reassembleMessages.simps(1))
  with read_frame [OF assms(1), of m lo hi rest] assms(2) show ?thesis
    by simp
qed

theorem reassemble_crc_mismatch_witness:
  "reassembleMessages True
     (map Byte [0x55, 0x44, 0xAA, 0xBB, 0xCC, 0xDD, 0xEE, 0xFF, 0x0C, 0x7F, 2, 0x68, 0x68])
   = [SetActive False, Reset, CloseOutput]"
proof -
  have len: "length [0x68, 0x68 :: u8] \<le> 255"
    by simp
  have crc: "(ucast (0x0C :: u8) OR push_bit 8 (ucast (0x7F :: u8)) :: u16)
               \<noteq> ucast (CalculateCRC [0x68, 0x68])"
    by (simp add: CalculateCRC_def crc_update_def crc_shift_def)
  have closed: "reassembleMessages False [] = [Reset, CloseOutput]"
    by (simp add: reassembleMessages.simps(1) awaitActivation_closed)
  from reassemble_crc_mismatch [OF len crc, of "[]" "(0xAA, 0xBB, 0xCC, 0xDD, 0xEE, 0xFF)"]
  show ?thesis
    by (simp add: closed)
qed

section \<open>Link Writer while not connected\<close>

text \<open>
  C4. The code on a schedule of the goroutines: the session is connected and the
  writer tests the flag and blocks in the \<open>select\<close> of the connected branch; the
  Reassembler then sets the flag to false; the application sends the Message of the
  spec's scenario; the Outbox case of the \<open>select\<close> fires. The writer writes the
  whole outbound-message frame, header \<open>22 11\<close>, while the session state is not
  connected.
\<close>

theorem writer_sends_after_disconnect:
  "pipeline [ReadFlag, Flag False, Send example_msg, Fire FromBox]
     AtTop \<lparr>connection = \<lparr>written = [], link_up = True\<rparr>, active = True, peers = []\<rparr> []
   = Running AtTop
       \<lparr>connection = \<lparr>written = [0x22, 0x11, 0xAA, 0xBB, 0xCC, 0xDD, 0xEE, 0xFF,
                                  0x0C, 0x7F, 2, 0x68, 0x69],
                       link_up = True\<rparr>,
        active = False, peers = []\<rparr> []"
proof -
  have "length (Data example_msg) \<le> 250"
    by (simp add: example_msg_def)
  then show ?thesis
    by (simp add: read_active_def Outbox_send_def select_active_def continue_with_def
        sendOutbound_up example_frame)
qed

section \<open>Payload ceiling of outbound Messages\<close>

text \<open>
  C5. The Link Writer receives a Message from the Outbox, which it does in the
  \<open>select\<close> of the connected branch. If the Message has more than 250 payload
  bytes the process ends with the connection as it was: no byte of the frame is
  written. If it has at most 250 bytes, on a link that is up, the whole frame is
  written.
\<close>

theorem writer_payload_limit:
  "(length (Data msg) > 250 \<longrightarrow>
      select_active FromBox b (msg # box) = Exited PayloadTooLarge (connection b))
   \<and> (length (Data msg) \<le> 250 \<and> link_up (connection b) \<longrightarrow>
      select_active FromBox b (msg # box)
        = Continue (b\<lparr>connection := (connection b)
              \<lparr>written := written (connection b) @ outbound_frame msg\<rparr>\<rparr>) box)"
  by (simp add: select_active_def continue_with_def sendOutbound_large sendOutbound_up)

theorem writer_payload_limit_witness:
  "select_active FromBox (example_bridge\<lparr>active := True\<rparr>)
       [\<lparr>Mac = example_mac, Data = replicate 251 0\<rparr>]
     = Exited PayloadTooLarge \<lparr>written = [], link_up = True\<rparr> \<and>
   select_active FromBox (example_bridge\<lparr>active := True\<rparr>) [example_msg]
     = Continue (example_bridge\<lparr>active := True, connection :=
          \<lparr>written = [0x22, 0x11, 0xAA, 0xBB, 0xCC, 0xDD, 0xEE, 0xFF, 0x0C, 0x7F, 2, 0x68, 0x69],
           link_up = True\<rparr>\<rparr>) []"
  using writer_payload_limit [of "\<lparr>Mac = example_mac, Data = replicate 251 0\<rparr>"
          "example_bridge\<lparr>active := True\<rparr>" "[]"]
    writer_payload_limit [of example_msg "example_bridge\<lparr>active := True\<rparr>" "[]"]
  by (simp add: example_bridge_def example_frame) (simp add: example_msg_def)

section \<open>Adding a peer\<close>

text \<open>
  C6. The code at the call of the example program: \<open>AddPeer\<close> on the empty table
  returns without error and the table is still empty, so no number of calls ever
  fills it.
\<close>

theorem AddPeer_appends_nothing:
  "AddPeer example_bridge (0x2e, 0xf4, 0x32, 0x12, 0xd5, 0x73) 1 = Inr example_bridge \<and>
   peers example_bridge = []"
  by (simp add: AddPeer_def example_bridge_def)

section \<open>Removing a peer\<close>

text \<open>
  C7. When the table holds the address, \<open>RemovePeer\<close> overwrites the first
  matching entry with the last entry and drops the last slot: the table is the old
  one without that entry as a multiset, one shorter, and every peer with another
  address is still there. When the table does not hold the address, the Bridge is
  unchanged.
\<close>

theorem RemovePeer_swap_truncate:
  "((\<exists>p \<in> set (peers b). mac p = m) \<longrightarrow>
      (\<exists>k < length (peers b). mac (peers b ! k) = m \<and> (\<forall>j < k. mac (peers b ! j) \<noteq> m) \<and>
         peers (RemovePeer b m) = butlast ((peers b)[k := last (peers b)]) \<and>
         mset (peers b) = add_mset (peers b ! k) (mset (peers (RemovePeer b m)))) \<and>
      length (peers (RemovePeer b m)) = length (peers b) - 1 \<and>
      (\<forall>p \<in> set (peers b). mac p \<noteq> m \<longrightarrow> p \<in> set (peers (RemovePeer b m)))) \<and>
   ((\<forall>p \<in> set (peers b). mac p \<noteq> m) \<longrightarrow> RemovePeer b m = b)"
proof (intro conjI impI)
  assume "\<forall>p \<in> set (peers b). mac p \<noteq> m"
  then show "RemovePeer b m = b"
    by (rule RemovePeer_absent)
next
  assume ex: "\<exists>p \<in> set (peers b). mac p = m"
  let ?ps = "peers b"
  from first_match [OF ex] obtain k where
    k: "k < length ?ps" "mac (?ps ! k) = m" "\<forall>j < k. mac (?ps ! j) \<noteq> m"
    by blast
  let ?r = "take (length ?ps - 1) (?ps[k := ?ps ! (length ?ps - 1)])"
  have r: "peers (RemovePeer b m) = ?r"
    by (simp add: RemovePeer_found [OF k])
  have ne: "?ps \<noteq> []"
    using k(1) by auto
  have shape: "?r = butlast (?ps[k := last ?ps])"
    using ne by (simp add: butlast_conv_take last_conv_nth)
  have ms: "mset ?ps = add_mset (?ps ! k) (mset ?r)"
    using mset_swap_remove [OF k(1)] by simp
  show "\<exists>k < length ?ps. mac (?ps ! k) = m \<and> (\<forall>j < k. mac (?ps ! j) \<noteq> m) \<and>
         peers (RemovePeer b m) = butlast (?ps[k := last ?ps]) \<and>
         mset ?ps = add_mset (?ps ! k) (mset (peers (RemovePeer b m)))"
    using k r shape ms by (intro exI [of _ k]) simp
  show "length (peers (RemovePeer b m)) = length ?ps - 1"
    by (simp add: r)
  show "\<forall>p \<in> set ?ps. mac p \<noteq> m \<longrightarrow> p \<in> set (peers (RemovePeer b m))"
  proof (intro ballI impI)
    fix p assume p: "p \<in> set ?ps" "mac p \<noteq> m"
    then have "p \<in># add_mset (?ps ! k) (mset ?r)"
      using ms by (metis set_mset_mset)
    moreover have "p \<noteq> ?ps ! k"
      using p(2) k(2) by auto
    ultimately show "p \<in> set (peers (RemovePeer b m))"
      by (simp add: r)
  qed
qed

theorem RemovePeer_swap_truncate_witness:
  "length (peers (RemovePeer
       (example_bridge\<lparr>peers := [\<lparr>mac = example_mac, wifiChannel = 1\<rparr>,
                                 \<lparr>mac = (1, 2, 3, 4, 5, 6), wifiChannel = 1\<rparr>,
                                 \<lparr>mac = (6, 5, 4, 3, 2, 1), wifiChannel = 6\<rparr>]\<rparr>) example_mac)) = 2 \<and>
   \<lparr>mac = (1, 2, 3, 4, 5, 6), wifiChannel = 1\<rparr> \<in> set (peers (RemovePeer
       (example_bridge\<lparr>peers := [\<lparr>mac = example_mac, wifiChannel = 1\<rparr>,
                                 \<lparr>mac = (1, 2, 3, 4, 5, 6), wifiChannel = 1\<rparr>,
                                 \<lparr>mac = (6, 5, 4, 3, 2, 1), wifiChannel = 6\<rparr>]\<rparr>) example_mac)) \<and>
   RemovePeer example_bridge example_mac = example_bridge"
  using RemovePeer_swap_truncate [of
      "example_bridge\<lparr>peers := [\<lparr>mac = example_mac, wifiChannel = 1\<rparr>,
                                 \<lparr>mac = (1, 2, 3, 4, 5, 6), wifiChannel = 1\<rparr>,
                                 \<lparr>mac = (6, 5, 4, 3, 2, 1), wifiChannel = 6\<rparr>]\<rparr>" example_mac]
    RemovePeer_swap_truncate [of example_bridge example_mac]
  by (simp add: example_bridge_def example_mac_def)

section \<open>Waiting for the connection\<close>

text \<open>
  C8. The code at the call of the example program: the session is not connected
  and the timeout is 10 seconds; the loop test is made 100 ns after the call. The
  call returns at that very moment, without a single sleep.
\<close>

theorem WaitForConnected_returns_at_once:
  "\<not> active example_bridge \<and>
   WaitForConnected example_bridge 0 100 10000000000 = Some 100"
  by (simp add: WaitForConnected_def example_bridge_def waitLoop.simps)

section \<open>Length of inbound payloads\<close>

text \<open>
  C9, as stated, at an explicit input. A connected Reassembler reads a \<open>55 44\<close>
  frame whose length byte is 251 and whose 251 payload bytes are zero (their
  CRC-16/XMODEM is 0, the checksum transmitted): the frame is accepted and the
  Message emitted has 251 payload bytes.
\<close>

theorem inbound_payload_over_250:
  "reassembleMessages True
     (map Byte ([0x55, 0x44, 0xAA, 0xBB, 0xCC, 0xDD, 0xEE, 0xFF, 0x00, 0x00, 0xFB] @ replicate 251 0))
     = [Output \<lparr>Mac = example_mac, Data = replicate 251 0\<rparr>, CloseOutput] \<and>
   \<not> length (Data \<lparr>Mac = example_mac, Data = replicate 251 0\<rparr>) \<le> 250"
proof -
  have len: "length (replicate 251 (0 :: u8)) \<le> 255"
    by simp
  from read_frame [OF len, of example_mac 0 0 "[]"] show ?thesis
    by (simp add: crc_zeros reassemble_closed example_mac_def)
qed

text \<open>
  C9, amended. Every Message the Reassembler emits, from any state and on any
  input, has at most 255 payload bytes, the largest value of the length byte.
\<close>

theorem reassemble_payload_bound:
  "Output msg \<in> set (reassembleMessages a input) \<Longrightarrow> length (Data msg) \<le> 255"
proof (induction a input rule: reassembleMessages.induct)
  case (1 input)
  obtain evs r where aw: "awaitActivation 0 input = (evs, r)"
    by (cases "awaitActivation 0 input") auto
  have no: "Output msg \<notin> set evs"
    using awaitActivation_events [OF aw, of "Output msg"] by auto
  show ?case
  proof (cases r)
    case None
    with "1.prems" aw no show ?thesis
      by (simp add: reassembleMessages.simps(1))
  next
    case (Some input1)
    with "1.prems" aw no have "Output msg \<in> set (reassembleMessages True input1)"
      by (simp add: reassembleMessages.simps(1))
    from "1.IH" [OF aw [symmetric] Some this] show ?thesis .
  qed
next
  case (2 input)
  obtain header ok0 input1 where g0: "getBytes input 2 = (header, ok0, input1)"
    by (cases "getBytes input 2") auto
  obtain macb ok1 input2 where g1: "getBytes input1 6 = (macb, ok1, input2)"
    by (cases "getBytes input1 6") auto
  obtain crc ok2 input3 where g2: "getBytes input2 2 = (crc, ok2, input3)"
    by (cases "getBytes input2 2") auto
  obtain sz ok3 input4 where g3: "recv input3 = (sz, ok3, input4)"
    by (cases "recv input3") auto
  obtain data ok4 input5 where g4: "getBytes input4 (unat sz) = (data, ok4, input5)"
    by (cases "getBytes input4 (unat sz)") auto
  show ?case
  proof (cases ok0)
    case False
    with "2.prems" g0 show ?thesis
      by (simp add: reassembleMessages.simps(2))
  next
    case ok0: True
    have g0': "(header, True, input1) = getBytes input 2"
      using g0 ok0 by simp
    show ?thesis
    proof (cases "header ! 0 = 0x55 \<and> header ! 1 = 0x44")
      case hdr: True
      show ?thesis
      proof (cases "ok3 \<and> ok4")
        case False
        with "2.prems" g3 g4 show ?thesis
          by (cases ok3; cases ok4)
             (simp_all add: reassembleMessages.simps(2) g0' [symmetric] hdr g1 g2 del: One_nat_def)
      next
        case True
        then have ok3: "ok3 = True" and ok4: "ok4 = True"
          by simp_all
        have g3': "(sz, True, input4) = recv input3"
          using g3 ok3 by simp
        have g4': "(data, True, input5) = getBytes input4 (unat sz)"
          using g4 ok4 by simp
        have len: "length data \<le> 255"
          using getBytes_result_length [OF g4' [symmetric]] unat_u8_le [of sz] by simp
        show ?thesis
        proof (cases "(ucast (crc ! 0) OR push_bit 8 (ucast (crc ! 1)) :: u16)
                        \<noteq> ucast (CalculateCRC data)")
          case bad: True
          from "2.prems"
          have "Output msg \<in> set (reassembleMessages False input5)"
            by (simp add: reassembleMessages.simps(2) g0' [symmetric] hdr g1 g2 g3' [symmetric]
                  g4' [symmetric] bad del: One_nat_def)
          from "2.IH"(1) [OF g0' refl refl hdr g1 [symmetric] refl g2 [symmetric] refl
              g3' refl refl g4' refl refl bad this]
          show ?thesis .
        next
          case good: False
          from "2.prems"
          have "msg = \<lparr>Mac = copy_mac macb, Data = data\<rparr>
                  \<or> Output msg \<in> set (reassembleMessages True input5)"
            by (simp add: reassembleMessages.simps(2) g0' [symmetric] hdr g1 g2 g3' [symmetric]
                  g4' [symmetric] good del: One_nat_def)
          then show ?thesis
          proof
            assume "msg = \<lparr>Mac = copy_mac macb, Data = data\<rparr>"
            with len show ?thesis by simp
          next
            assume "Output msg \<in> set (reassembleMessages True input5)"
            from "2.IH"(2) [OF g0' refl refl hdr g1 [symmetric] refl g2 [symmetric] refl
                g3' refl refl g4' refl refl good this]
            show ?thesis .
          qed
        qed
      qed
    next
      case nohdr: False
      show ?thesis
      proof (cases "header ! 0 = 0x44 \<and> header ! 1 = 0x33")
        case peers: True
        from "2.prems"
        have "Output msg \<in> set (reassembleMessages True input1)"
          by (simp add: reassembleMessages.simps(2) g0' [symmetric] nohdr peers del: One_nat_def)
        from "2.IH"(3) [OF g0' refl refl nohdr peers this] show ?thesis .
      next
        case other: False
        from "2.prems"
        have "Output msg \<in> set (reassembleMessages False input1)"
          by (simp add: reassembleMessages.simps(2) g0' [symmetric] nohdr other del: One_nat_def)
        from "2.IH"(4) [OF g0' refl refl nohdr other this] show ?thesis .
      qed
    qed
  qed
qed

theorem reassemble_payload_bound_witness:
  "Output example_msg \<in> set (reassembleMessages True
     (map Byte [0x55, 0x44, 0xAA, 0xBB, 0xCC, 0xDD, 0xEE, 0xFF, 0x0C, 0x7F, 2, 0x68, 0x69])) \<and>
   length (Data example_msg) \<le> 255"
proof -
  have len: "length [0x68, 0x69 :: u8] \<le> 255"
    by simp
  have "reassembleMessages True
     (map Byte [0x55, 0x44, 0xAA, 0xBB, 0xCC, 0xDD, 0xEE, 0xFF, 0x0C, 0x7F, 2, 0x68, 0x69])
     = [Output example_msg, CloseOutput]"
    using read_frame [OF len, of example_mac "0x0C" "0x7F" "[]"]
    by (simp add: example_msg_def example_mac_def reassemble_closed
        CalculateCRC_def crc_update_def crc_shift_def)
  then have h: "Output example_msg \<in> set (reassembleMessages True
     (map Byte [0x55, 0x44, 0xAA, 0xBB, 0xCC, 0xDD, 0xEE, 0xFF, 0x0C, 0x7F, 2, 0x68, 0x69]))"
    by simp
  from reassemble_payload_bound [OF h] h show ?thesis
    by simp
qed

section \<open>The Outbox while not connected\<close>




end
